theory Spec2Isabelle
  imports Complex_Main "HOL-Library.Word" "HOL-Library.Log_Nat"
begin

section \<open>Strings: \<open>strings.Split\<close> and \<open>fmt.Sprintf("%d")\<close>\<close>

text \<open>
  Go strings are byte sequences and \<open>len\<close> counts bytes; \<open>string\<close> is a list of
  bytes here, so \<open>length\<close> is Go's \<open>len\<close>.
\<close>

text \<open>\<open>strings.Split(s, sep)\<close> for a one-byte separator: always at least one piece.\<close>

fun split_on :: "char \<Rightarrow> string \<Rightarrow> string list" where
  "split_on c [] = [[]]"
| "split_on c (x # xs) =
     (if x = c then [] # split_on c xs
      else (case split_on c xs of
              [] \<Rightarrow> [[x]]
            | w # ws \<Rightarrow> (x # w) # ws))"

definition digit_char :: "nat \<Rightarrow> char" where
  "digit_char d =
     (if d = 0 then CHR ''0'' else if d = 1 then CHR ''1'' else if d = 2 then CHR ''2''
      else if d = 3 then CHR ''3'' else if d = 4 then CHR ''4'' else if d = 5 then CHR ''5''
      else if d = 6 then CHR ''6'' else if d = 7 then CHR ''7'' else if d = 8 then CHR ''8''
      else CHR ''9'')"

fun digits :: "nat \<Rightarrow> string" where
  "digits n = (if n < 10 then [digit_char n] else digits (n div 10) @ [digit_char (n mod 10)])"

text \<open>The verb \<open>%d\<close> of \<open>fmt.Sprintf\<close> on a signed integer.\<close>

definition fmt_d :: "int \<Rightarrow> string" where
  "fmt_d i = (if i < 0 then CHR ''-'' # digits (nat (- i)) else digits (nat i))"


section \<open>The domain: \<open>Status\<close>, \<open>File\<close>, \<open>Task\<close>\<close>

text \<open>\<open>domain.Status\<close> is a Go string type with four named constants.\<close>

type_synonym status = string

definition StatusPending :: status where "StatusPending = ''pending''"
definition StatusDownloading :: status where "StatusDownloading = ''downloading''"
definition StatusCompleted :: status where "StatusCompleted = ''completed''"
definition StatusFailed :: status where "StatusFailed = ''failed''"

type_synonym int64 = "64 word"
type_synonym addr = nat

text \<open>
  \<open>domain.File\<close>. \<open>Size\<close> and \<open>Downloaded\<close> are \<open>int64\<close>: 64-bit words read
  through \<open>sint\<close>, with wrapping addition. \<open>time.Time\<close> is an opaque integer.
\<close>

record File =
  URL :: string
  Filename :: string
  fStatus :: status
  Size :: int64
  Downloaded :: int64
  fCreatedAt :: int

text \<open>
  \<open>domain.Task\<close>. \<open>Files\<close> is a slice: \<open>None\<close> is the nil slice, \<open>Some a\<close> the
  slice covering the backing array at address \<open>a\<close> (the program never reslices).
  \<open>Progress\<close> is a Go \<open>int\<close>; nothing adds to it, so it is kept as an integer.
\<close>

record Task =
  ID :: string
  URLs :: "string list"
  tStatus :: status
  Files :: "addr option"
  tCreatedAt :: int
  Progress :: int

text \<open>What \<open>json.MarshalIndent\<close> writes for a task: its fields and its files by value.\<close>

type_synonym task_doc = "Task \<times> File list"


section \<open>The store: heap, registry and state directory\<close>

text \<open>
  Tasks are shared through \<open>*domain.Task\<close> and files through \<open>*domain.File\<close>
  pointers into a slice's backing array, so both live in an explicit heap. Go is memory
  safe: every address holds an object, and a pointer to a file is an array address with
  an index inside it.
  \<^item> \<open>arrays\<close>: the backing arrays of \<open>[]domain.File\<close>;
  \<^item> \<open>objs\<close>: the \<open>domain.Task\<close> objects;
  \<^item> \<open>next_addr\<close>: the allocator;
  \<^item> \<open>tasks\<close>: \<open>TaskManager.tasks\<close>, task ID to task pointer;
  \<^item> \<open>disk\<close>: the state directory as a journal of the documents written by
    \<open>os.WriteFile\<close>, newest first (a file's content is its newest entry).
\<close>

record state =
  arrays :: "addr \<Rightarrow> File list"
  objs :: "addr \<Rightarrow> Task"
  next_addr :: addr
  tasks :: "string \<rightharpoonup> addr"
  disk :: "(string \<times> task_doc) list"

definition files_of :: "state \<Rightarrow> Task \<Rightarrow> File list" where
  "files_of s t = (case Files t of None \<Rightarrow> [] | Some a \<Rightarrow> arrays s a)"

definition empty_state :: state where
  "empty_state = \<lparr>arrays = (\<lambda>_. []),
     objs = (\<lambda>_. \<lparr>ID = [], URLs = [], tStatus = [], Files = None, tCreatedAt = 0, Progress = 0\<rparr>),
     next_addr = 0, tasks = Map.empty, disk = []\<rparr>"


section \<open>\<open>repository.TaskStorage\<close>\<close>

text \<open>
  The file system decides which step of \<open>SaveTask\<close> fails; it is an input of the
  model. A failing step leaves the journal as it was.
\<close>

datatype io_outcome = IoOk | MkdirAllFails | MarshalFails | WriteFileFails

datatype error = ErrCreateStateDir | ErrMarshalTask | ErrWriteTaskFile

text \<open>\<open>filepath.Join(ts.stateDir, task.ID+".json")\<close>, relative to the state directory.\<close>

definition task_path :: "string \<Rightarrow> string" where
  "task_path taskID = taskID @ ''.json''"

definition marshal :: "state \<Rightarrow> addr \<Rightarrow> task_doc" where
  "marshal s p = (objs s p, files_of s (objs s p))"

definition SaveTask :: "io_outcome \<Rightarrow> addr \<Rightarrow> state \<Rightarrow> error option \<times> state" where
  "SaveTask io p s =
     (case io of
        MkdirAllFails \<Rightarrow> (Some ErrCreateStateDir, s)
      | MarshalFails \<Rightarrow> (Some ErrMarshalTask, s)
      | WriteFileFails \<Rightarrow> (Some ErrWriteTaskFile, s)
      | IoOk \<Rightarrow> (None, s\<lparr>disk := (task_path (ID (objs s p)), marshal s p) # disk s\<rparr>))"

definition storage_UpdateTask :: "io_outcome \<Rightarrow> addr \<Rightarrow> state \<Rightarrow> error option \<times> state" where
  "storage_UpdateTask io p s = SaveTask io p s"

text \<open>\<open>LoadTask\<close> reads the newest document written under the task's path.\<close>

definition LoadTask :: "string \<Rightarrow> state \<Rightarrow> task_doc option" where
  "LoadTask taskID s = map_of (disk s) (task_path taskID)"


section \<open>\<open>service.TaskManager\<close>\<close>

text \<open>\<open>generateTaskID\<close>; the clock reading \<open>time.Now().UnixNano()\<close> is an input.\<close>

definition generateTaskID :: "int \<Rightarrow> string" where
  "generateTaskID now = ''task_'' @ fmt_d now"

definition extractFilename :: "string \<Rightarrow> string" where
  "extractFilename url =
     (let parts = split_on CHR ''/'' url in
      if length parts > 0 then
        (let filename = last parts in
         if filename = [] then ''unknown_file'' else filename)
      else ''unknown_file'')"

definition new_file :: "string \<Rightarrow> File" where
  "new_file url = \<lparr>URL = url, Filename = extractFilename url, fStatus = StatusPending,
     Size = 0, Downloaded = 0, fCreatedAt = 0\<rparr>"

text \<open>
  \<open>CreateTask\<close>: the appended files end up in one fresh backing array (no array at all
  for no URLs), the task object is allocated, registered under its ID, then saved.
\<close>

definition CreateTask :: "int \<Rightarrow> io_outcome \<Rightarrow> string list \<Rightarrow> state \<Rightarrow> (error + addr) \<times> state" where
  "CreateTask now io urls s =
     (let taskID = generateTaskID now;
          a = next_addr s;
          files = (if urls = [] then None else Some a);
          s1 = (if urls = [] then s
                else s\<lparr>arrays := (arrays s)(a := map new_file urls), next_addr := Suc a\<rparr>);
          p = next_addr s1;
          t = \<lparr>ID = taskID, URLs = urls, tStatus = StatusPending, Files = files,
               tCreatedAt = 0, Progress = 0\<rparr>;
          s2 = s1\<lparr>objs := (objs s1)(p := t), next_addr := Suc p\<rparr>;
          s3 = s2\<lparr>tasks := (tasks s2)(taskID \<mapsto> p)\<rparr>
      in case SaveTask io p s3 of
           (Some err, s4) \<Rightarrow> (Inl err, s4)
         | (None, s4) \<Rightarrow> (Inr p, s4))"

definition GetTask :: "string \<Rightarrow> state \<Rightarrow> addr option" where
  "GetTask taskID s = tasks s taskID"

definition UpdateTask :: "io_outcome \<Rightarrow> addr \<Rightarrow> state \<Rightarrow> error option \<times> state" where
  "UpdateTask io p s =
     storage_UpdateTask io p (s\<lparr>tasks := (tasks s)(ID (objs s p) \<mapsto> p)\<rparr>)"

text \<open>\<open>GetAllTasks\<close> copies the map: the copy shares the task objects.\<close>

definition GetAllTasks :: "state \<Rightarrow> (string \<rightharpoonup> addr)" where
  "GetAllTasks s = (\<lambda>k. tasks s k)"


section \<open>\<open>service.Downloader\<close>\<close>

text \<open>
  The network and \<open>net/url\<close> are the environment: \<open>url_Parse u\<close> is the \<open>Path\<close> of
  the URL that \<open>neturl.Parse(u)\<close> returns, or \<open>None\<close> when it returns an error;
  \<open>GetFileSize\<close> and \<open>DownloadFile\<close> answer with what the server and the local file
  system make of the request.
\<close>

datatype net_error = NetError

record env =
  url_Parse :: "string \<Rightarrow> string option"
  GetFileSize :: "string \<Rightarrow> net_error + int64"
  DownloadFile :: "string \<Rightarrow> string \<Rightarrow> net_error + string"

definition ExtractFilename :: "(string \<Rightarrow> string option) \<Rightarrow> string \<Rightarrow> string" where
  "ExtractFilename parse u =
     (case parse u of
        None \<Rightarrow> ''file_'' @ fmt_d (int (length u))
      | Some p \<Rightarrow>
          if p = [] \<or> p = ''/'' then ''file_'' @ fmt_d (int (length u))
          else (let segs = split_on CHR ''/'' p; name = last segs in
                if name = [] then ''file_'' @ fmt_d (int (length u)) else name))"



section \<open>\<open>float64\<close> arithmetic\<close>

text \<open>
  The progress is computed in \<open>float64\<close>. A finite double is a rational number, and
  every IEEE 754 operation is the exact result rounded to 53 significant bits, to
  nearest, ties to even. The operands here are conversions of 64-bit integers, their
  quotient and its product with 100: magnitudes between \<open>2\<^sup>-\<^sup>6\<^sup>3\<close> and \<open>2\<^sup>7\<^sup>0\<close>, far
  inside the exponent range, so rounding never overflows or reaches the subnormals.
\<close>

datatype f64 = Finite rat | PosInf | NegInf | NaN

text \<open>For \<open>x > 0\<close>: the \<open>e\<close> with \<open>2\<^sup>e \<le> x < 2\<^sup>e\<^sup>+\<^sup>1\<close>.\<close>

definition floor_log2 :: "rat \<Rightarrow> int" where
  "floor_log2 x = (case quotient_of x of (p, q) \<Rightarrow>
     (let k = bitlen p - bitlen q in if 2 powi k \<le> x then k else k - 1))"

definition round_half_even :: "rat \<Rightarrow> int" where
  "round_half_even y = (let n = \<lfloor>y\<rfloor>; r = y - of_int n in
     if r < 1 / 2 then n else if 1 / 2 < r then n + 1 else if even n then n else n + 1)"

definition f64_round :: "rat \<Rightarrow> rat" where
  "f64_round x = (if x = 0 then 0 else
     (let u = 2 powi (floor_log2 \<bar>x\<bar> - 52) in of_int (round_half_even (x / u)) * u))"

text \<open>The conversions \<open>float64(i)\<close> of an \<open>int64\<close> and of an \<open>int\<close>.\<close>

definition f64_of_int64 :: "int64 \<Rightarrow> rat" where
  "f64_of_int64 i = f64_round (of_int (sint i))"

definition f64_of_int :: "int \<Rightarrow> rat" where
  "f64_of_int i = f64_round (of_int i)"

text \<open>
  The quotient of two converted integers (so the zeros are positive zeros): a zero
  divisor gives an infinity, or NaN for \<open>0 / 0\<close>.
\<close>

definition f64_div :: "rat \<Rightarrow> rat \<Rightarrow> f64" where
  "f64_div a b =
     (if b \<noteq> 0 then Finite (f64_round (a / b))
      else if a = 0 then NaN else if 0 < a then PosInf else NegInf)"

text \<open>The product with a positive constant.\<close>

definition f64_mul :: "f64 \<Rightarrow> rat \<Rightarrow> f64" where
  "f64_mul x c = (case x of Finite a \<Rightarrow> Finite (f64_round (a * c)) | PosInf \<Rightarrow> PosInf
                  | NegInf \<Rightarrow> NegInf | NaN \<Rightarrow> NaN)"

text \<open>
  The conversion \<open>int(x)\<close> drops the fraction. Go leaves the result open when the value
  does not fit; the value taken here is the one of amd64 (\<open>CVTTSD2SQ\<close>), \<open>-2\<^sup>6\<^sup>3\<close>.
\<close>

definition int_of_f64 :: "f64 \<Rightarrow> int" where
  "int_of_f64 x =
     (case x of
        Finite a \<Rightarrow>
          (let t = (if 0 \<le> a then \<lfloor>a\<rfloor> else \<lceil>a\<rceil>) in
           if - (2 ^ 63) \<le> t \<and> t < 2 ^ 63 then t else - (2 ^ 63))
      | _ \<Rightarrow> - (2 ^ 63))"


section \<open>\<open>service.WorkerPool\<close>\<close>

text \<open>A \<open>*domain.File\<close>: the backing array and the index inside it.\<close>

type_synonym file_ptr = "addr \<times> nat"

record DownloadTask =
  FilePtr :: file_ptr
  TaskID :: string

text \<open>
  The pool, as far as submission sees it: the buffer of \<open>taskChan\<close> (oldest first), its
  capacity, whether \<open>Stop\<close> has closed it, whether \<open>ctx\<close> is cancelled, and whether
  \<open>tm\<close> is nil.
\<close>

record WorkerPool =
  workers :: int
  taskChan :: "DownloadTask list"
  chan_cap :: nat
  chan_closed :: bool
  ctx_done :: bool
  tm_nil :: bool

definition NewWorkerPool :: "int \<Rightarrow> bool \<Rightarrow> WorkerPool" where
  "NewWorkerPool n no_tm = \<lparr>workers = n, taskChan = [], chan_cap = nat (n * 2),
     chan_closed = False, ctx_done = False, tm_nil = no_tm\<rparr>"

datatype add_result = Enqueued | PoolStopped | QueueFull | SendOnClosedChannel

text \<open>
  \<open>AddTask\<close> is one \<open>select\<close> with a send, a receive from \<open>ctx.Done()\<close> and a
  \<open>default\<close>. The send can proceed when the buffer has room, and also when the channel
  is closed (it then panics); the receive can proceed once the context is cancelled.
  Of the cases that can proceed Go picks one pseudo-randomly: \<open>pick\<close> is that choice.
  Only when none can proceed does \<open>default\<close> run.
\<close>

definition AddTask :: "nat \<Rightarrow> DownloadTask \<Rightarrow> WorkerPool \<Rightarrow> add_result \<times> WorkerPool" where
  "AddTask pick task wp =
     (let can_send = (chan_closed wp \<or> length (taskChan wp) < chan_cap wp);
          can_done = ctx_done wp;
          send = (if chan_closed wp then (SendOnClosedChannel, wp)
                  else (Enqueued, wp\<lparr>taskChan := taskChan wp @ [task]\<rparr>))
      in if can_send \<and> can_done then (if even pick then send else (PoolStopped, wp))
         else if can_send then send
         else if can_done then (PoolStopped, wp)
         else (QueueFull, wp))"

text \<open>The first loop of \<open>updateTaskProgress\<close>.\<close>

fun scan_files :: "File list \<Rightarrow> int64 \<times> int64 \<times> bool \<times> bool \<Rightarrow> int64 \<times> int64 \<times> bool \<times> bool" where
  "scan_files [] acc = acc"
| "scan_files (f # fs) (totalSize, downloaded, allCompleted, anyInProgress) =
     scan_files fs
       (totalSize + Size f, downloaded + Downloaded f,
        (if fStatus f \<noteq> StatusCompleted then False else allCompleted),
        (if fStatus f = StatusDownloading then True else anyInProgress))"

text \<open>The second loop; \<open>completed\<close> counts files, far below the range of \<open>int\<close>.\<close>

fun count_completed :: "File list \<Rightarrow> int \<Rightarrow> int" where
  "count_completed [] completed = completed"
| "count_completed (f # fs) completed =
     count_completed fs (if fStatus f = StatusCompleted then completed + 1 else completed)"

text \<open>
  The quotient that the pass computes before multiplying by 100: \<open>downloaded\<close> over
  \<open>totalSize\<close> when \<open>totalSize > 0\<close>, else \<open>completed\<close> over the number of files when
  there are files, else none at all (\<open>Progress\<close> is then not assigned).
\<close>

definition progress_quotient :: "File list \<Rightarrow> f64 option" where
  "progress_quotient fs =
     (case scan_files fs (0, 0, True, False) of
        (totalSize, downloaded, allCompleted, anyInProgress) \<Rightarrow>
          if 0 <s totalSize then Some (f64_div (f64_of_int64 downloaded) (f64_of_int64 totalSize))
          else (let completed = count_completed fs 0 in
                if length fs > 0
                then Some (f64_div (f64_of_int completed) (f64_of_int (int (length fs))))
                else None))"

definition updateTaskProgress :: "bool \<Rightarrow> io_outcome \<Rightarrow> string \<Rightarrow> state \<Rightarrow> state" where
  "updateTaskProgress no_tm io taskID s =
     (if no_tm then s
      else case GetTask taskID s of
        None \<Rightarrow> s
      | Some p \<Rightarrow>
          (let task = objs s p; fs = files_of s task in
           case scan_files fs (0, 0, True, False) of
             (totalSize, downloaded, allCompleted, anyInProgress) \<Rightarrow>
               (let progress = (case progress_quotient fs of
                                  None \<Rightarrow> Progress task
                                | Some q \<Rightarrow> int_of_f64 (f64_mul q 100));
                    st = (if allCompleted then StatusCompleted
                          else if anyInProgress then StatusDownloading
                          else if progress > 0 then StatusDownloading
                          else StatusPending);
                    s1 = s\<lparr>objs := (objs s)(p := task\<lparr>Progress := progress, tStatus := st\<rparr>)\<rparr>
                in snd (UpdateTask io p s1))))"

definition get_file :: "file_ptr \<Rightarrow> state \<Rightarrow> File" where
  "get_file fp s = (case fp of (a, i) \<Rightarrow> arrays s a ! i)"

definition set_file :: "file_ptr \<Rightarrow> (File \<Rightarrow> File) \<Rightarrow> state \<Rightarrow> state" where
  "set_file fp g s =
     (case fp of (a, i) \<Rightarrow> s\<lparr>arrays := (arrays s)(a := (arrays s a)[i := g (arrays s a ! i)])\<rparr>)"

definition processTask :: "WorkerPool \<Rightarrow> env \<Rightarrow> io_outcome \<Rightarrow> DownloadTask \<Rightarrow> state \<Rightarrow> state" where
  "processTask wp e io task s =
     (let fp = FilePtr task;
          s1 = set_file fp (\<lambda>f. f\<lparr>fStatus := StatusDownloading\<rparr>) s;
          url = URL (get_file fp s1)
      in case GetFileSize e url of
           Inl err \<Rightarrow> set_file fp (\<lambda>f. f\<lparr>fStatus := StatusFailed\<rparr>) s1
         | Inr sz \<Rightarrow>
             (let s2 = set_file fp (\<lambda>f. f\<lparr>Size := sz\<rparr>) s1;
                  filename = ExtractFilename (url_Parse e) url
              in case DownloadFile e url filename of
                   Inl err \<Rightarrow> set_file fp (\<lambda>f. f\<lparr>fStatus := StatusFailed\<rparr>) s2
                 | Inr savedName \<Rightarrow>
                     (let s3 = set_file fp (\<lambda>f. f\<lparr>fStatus := StatusCompleted,
                                   Downloaded := Size f, Filename := savedName\<rparr>) s2
                      in updateTaskProgress (tm_nil wp) io (TaskID task) s3)))"


section \<open>Recovery\<close>

text \<open>The inner loop of \<open>RecoverIncompleteTasks\<close> on one file.\<close>

definition reset_file :: "File \<Rightarrow> File" where
  "reset_file f =
     (if fStatus f \<noteq> StatusCompleted then f\<lparr>fStatus := StatusPending, Downloaded := 0\<rparr> else f)"

text \<open>The body of the outer loop on one task; the flag says whether it was counted.\<close>

definition recover_task :: "io_outcome \<Rightarrow> addr \<Rightarrow> state \<Rightarrow> bool \<times> state" where
  "recover_task io p s =
     (let task = objs s p in
      if tStatus task = StatusPending \<or> tStatus task = StatusDownloading then
        (let s1 = s\<lparr>objs := (objs s)(p := task\<lparr>tStatus := StatusPending, Progress := 0\<rparr>)\<rparr>;
             s2 = (case Files task of
                     None \<Rightarrow> s1
                   | Some a \<Rightarrow> s1\<lparr>arrays := (arrays s1)(a := map reset_file (arrays s1 a))\<rparr>)
         in case UpdateTask io p s2 of
              (Some err, s3) \<Rightarrow> (False, s3)
            | (None, s3) \<Rightarrow> (True, s3))
      else (False, s))"

fun recover_loop :: "(string \<Rightarrow> io_outcome) \<Rightarrow> (string \<times> addr) list \<Rightarrow> nat \<times> state \<Rightarrow> nat \<times> state" where
  "recover_loop io [] acc = acc"
| "recover_loop io ((k, p) # rest) (recovered, s) =
     (case recover_task (io k) p s of
        (ok, s') \<Rightarrow> recover_loop io rest (if ok then Suc recovered else recovered, s'))"

text \<open>
  Go ranges over a map in an order of its own choosing: \<open>order\<close> lists the keys as the
  loop meets them. The loop runs over the copy made by \<open>GetAllTasks\<close>. The file system
  answers each task's write with \<open>io k\<close>.
\<close>

definition snapshot :: "string list \<Rightarrow> (string \<rightharpoonup> addr) \<Rightarrow> (string \<times> addr) list" where
  "snapshot order m = concat (map (\<lambda>k. case m k of None \<Rightarrow> [] | Some p \<Rightarrow> [(k, p)]) order)"

definition RecoverIncompleteTasks :: "string list \<Rightarrow> (string \<Rightarrow> io_outcome) \<Rightarrow> state \<Rightarrow> nat \<times> state" where
  "RecoverIncompleteTasks order io s = recover_loop io (snapshot order (GetAllTasks s)) (0, s)"


section \<open>Example inputs\<close>

definition example_url :: string where
  "example_url = ''http://example.com/file1.txt''"

definition example_unit :: DownloadTask where
  "example_unit = \<lparr>FilePtr = (0, 0), TaskID = ''task_0''\<rparr>"


definition example_state :: state where
  "example_state = snd (CreateTask 0 IoOk [example_url] empty_state)"

definition example_empty_task :: state where
  "example_empty_task = snd (CreateTask 0 IoOk [] empty_state)"

definition failing_env :: env where
  "failing_env = \<lparr>url_Parse = (\<lambda>u. None), GetFileSize = (\<lambda>u. Inl NetError),
     DownloadFile = (\<lambda>u n. Inl NetError)\<rparr>"

definition url_A :: string where "url_A = ''http://example.com/A''"
definition url_B :: string where "url_B = ''http://example.com/B''"

definition example_two_files :: state where
  "example_two_files = snd (CreateTask 0 IoOk [url_A, url_B] empty_state)"

definition unit_A :: DownloadTask where "unit_A = \<lparr>FilePtr = (0, 0), TaskID = ''task_0''\<rparr>"
definition unit_B :: DownloadTask where "unit_B = \<lparr>FilePtr = (0, 1), TaskID = ''task_0''\<rparr>"

text \<open>A answers with 10 bytes; B answers the probe without a length and fails the fetch.\<close>
definition env_unknown_size :: env where
  "env_unknown_size = \<lparr>url_Parse = (\<lambda>u. Some (drop 18 u)),
     GetFileSize = (\<lambda>u. if u = url_A then Inr 10 else Inr (- 1)),
     DownloadFile = (\<lambda>u n. if u = url_A then Inr n else Inl NetError)\<rparr>"

text \<open>A answers the probe without a length and is fetched; B has 3 bytes and fails the fetch.\<close>
definition env_unknown_size' :: env where
  "env_unknown_size' = \<lparr>url_Parse = (\<lambda>u. Some (drop 18 u)),
     GetFileSize = (\<lambda>u. if u = url_A then Inr (- 1) else Inr 3),
     DownloadFile = (\<lambda>u n. if u = url_A then Inr n else Inl NetError)\<rparr>"


definition example_completed :: state where
  "example_completed =
     set_file (0, 0) (\<lambda>f. f\<lparr>fStatus := StatusCompleted, Size := 2, Downloaded := 2\<rparr>) example_state"

definition example_completed_unknown :: state where
  "example_completed_unknown =
     set_file (0, 0) (\<lambda>f. f\<lparr>fStatus := StatusCompleted, Size := - 1, Downloaded := - 1\<rparr>) example_state"



section \<open>Invariants of the recovery loop\<close>

definition incomplete :: "Task \<Rightarrow> bool" where
  "incomplete t = (tStatus t = StatusPending \<or> tStatus t = StatusDownloading)"

text \<open>
  What holds of every state \<open>s1\<close> that the recovery loop passes through, started in
  \<open>s0\<close>: a task object is as it was or is the reset of an incomplete one, a backing
  array is as it was or has had its files reset, and the journal has only grown.
\<close>

definition recovering :: "state \<Rightarrow> state \<Rightarrow> bool" where
  "recovering s0 s1 =
     ((\<forall>p. objs s1 p = objs s0 p \<or>
           (incomplete (objs s0 p) \<and> objs s1 p = (objs s0 p)\<lparr>tStatus := StatusPending, Progress := 0\<rparr>)) \<and>
      (\<forall>a. arrays s1 a = arrays s0 a \<or> arrays s1 a = map reset_file (arrays s0 a)) \<and>
      (\<exists>new. disk s1 = new @ disk s0))"

text \<open>The task at \<open>p\<close> has been visited: it is reset, and saved if \<open>ok\<close>.\<close>

definition settled :: "state \<Rightarrow> addr \<Rightarrow> bool \<Rightarrow> state \<Rightarrow> bool" where
  "settled s0 p ok s1 =
     (objs s1 p = (objs s0 p)\<lparr>tStatus := StatusPending, Progress := 0\<rparr> \<and>
      files_of s1 (objs s1 p) = map reset_file (files_of s0 (objs s0 p)) \<and>
      (ok \<longrightarrow> (\<exists>new. disk s1 = new @ disk s0 \<and>
          (task_path (ID (objs s0 p)),
           ((objs s0 p)\<lparr>tStatus := StatusPending, Progress := 0\<rparr>,
            map reset_file (files_of s0 (objs s0 p)))) \<in> set new)))"


text \<open>
  A registry of two tasks: \<open>task_1\<close> is downloading, with one completed and one failed
  file; \<open>task_2\<close> is completed.
\<close>

definition example_registry :: state where
  "example_registry =
     \<lparr>arrays = (\<lambda>_. [])
        (0 := [\<lparr>URL = ''http://example.com/A'', Filename = ''A'', fStatus = StatusCompleted,
                 Size = 2, Downloaded = 2, fCreatedAt = 0\<rparr>,
               \<lparr>URL = ''http://example.com/B'', Filename = ''B'', fStatus = StatusFailed,
                 Size = 7, Downloaded = 0, fCreatedAt = 0\<rparr>],
         2 := [\<lparr>URL = ''http://example.com/C'', Filename = ''C'', fStatus = StatusCompleted,
                 Size = 5, Downloaded = 5, fCreatedAt = 0\<rparr>]),
      objs = (objs empty_state)
        (1 := \<lparr>ID = ''task_1'', URLs = [''http://example.com/A'', ''http://example.com/B''],
                tStatus = StatusDownloading, Files = Some 0, tCreatedAt = 0, Progress = 100\<rparr>,
         3 := \<lparr>ID = ''task_2'', URLs = [''http://example.com/C''],
                tStatus = StatusCompleted, Files = Some 2, tCreatedAt = 0, Progress = 100\<rparr>),
      next_addr = 4,
      tasks = [''task_1'' \<mapsto> 1, ''task_2'' \<mapsto> 3],
      disk = []\<rparr>"


section \<open>Properties of the string helpers\<close>

lemma split_on_not_Nil: "split_on c xs \<noteq> []"
  by (induction xs) (auto split: list.splits)

lemma split_on_no_sep: "c \<notin> set xs \<Longrightarrow> split_on c xs = [xs]"
  by (induction xs) auto

lemma split_on_two: "c \<in> set xs \<Longrightarrow> tl (split_on c xs) \<noteq> []"
  by (induction xs) (auto simp: split_on_not_Nil split: list.splits)

lemma last_split_on_append:
  "last (split_on c (ys @ c # zs)) = last (split_on c zs)"
proof (induction ys)
  case Nil
  show ?case by (simp add: split_on_not_Nil)
next
  case (Cons y ys)
  have "c \<in> set (ys @ c # zs)" by simp
  then have two: "tl (split_on c (ys @ c # zs)) \<noteq> []" by (rule split_on_two)
  show ?case
  proof (cases "y = c")
    case True
    with Cons show ?thesis by (simp add: split_on_not_Nil)
  next
    case False
    obtain w ws where sp: "split_on c (ys @ c # zs) = w # ws"
      using split_on_not_Nil [of c "ys @ c # zs"] by (cases "split_on c (ys @ c # zs)") auto
    with two have "ws \<noteq> []" by simp
    with False sp Cons show ?thesis by simp
  qed
qed

lemma last_split_on:
  "last (split_on c xs) = rev (takeWhile (\<lambda>x. x \<noteq> c) (rev xs))"
proof (cases "c \<in> set xs")
  case False
  then have tw: "takeWhile (\<lambda>x. x \<noteq> c) (rev xs) = rev xs"
    by (auto simp: takeWhile_eq_all_conv)
  show ?thesis unfolding split_on_no_sep [OF False] tw by simp
next
  case True
  then obtain ys zs where xs: "xs = ys @ c # zs" and nz: "c \<notin> set zs"
    by (auto dest: split_list_last)
  have "takeWhile (\<lambda>x. x \<noteq> c) (rev zs @ c # rev ys) = rev zs"
    using nz by (subst takeWhile_append2) auto
  with xs nz show ?thesis
    by (simp add: last_split_on_append split_on_no_sep)
qed

lemma digits_not_Nil: "digits n \<noteq> []"
  by (subst digits.simps) simp

lemma fmt_d_not_Nil: "fmt_d i \<noteq> []"
  by (simp add: fmt_d_def digits_not_Nil)

lemma last_segment_Nil:
  "p \<noteq> [] \<Longrightarrow> (rev (takeWhile (\<lambda>x. x \<noteq> c) (rev p)) = []) = (last p = c)"
  by (simp add: takeWhile_eq_Nil_iff hd_rev)


section \<open>The example states, computed\<close>

lemma example_state_eq:
  "example_state = \<lparr>arrays = (\<lambda>_. [])(0 := [new_file example_url]),
     objs = (objs empty_state)(1 := \<lparr>ID = ''task_0'', URLs = [example_url], tStatus = StatusPending,
        Files = Some 0, tCreatedAt = 0, Progress = 0\<rparr>),
     next_addr = 2, tasks = [''task_0'' \<mapsto> 1],
     disk = [(''task_0.json'', (\<lparr>ID = ''task_0'', URLs = [example_url], tStatus = StatusPending,
        Files = Some 0, tCreatedAt = 0, Progress = 0\<rparr>, [new_file example_url]))]\<rparr>"
  by (simp add: example_state_def CreateTask_def SaveTask_def empty_state_def Let_def
      generateTaskID_def fmt_d_def digit_char_def task_path_def marshal_def files_of_def)

lemma example_empty_task_eq:
  "example_empty_task = \<lparr>arrays = (\<lambda>_. []),
     objs = (objs empty_state)(0 := \<lparr>ID = ''task_0'', URLs = [], tStatus = StatusPending,
        Files = None, tCreatedAt = 0, Progress = 0\<rparr>),
     next_addr = 1, tasks = [''task_0'' \<mapsto> 0],
     disk = [(''task_0.json'', (\<lparr>ID = ''task_0'', URLs = [], tStatus = StatusPending,
        Files = None, tCreatedAt = 0, Progress = 0\<rparr>, []))]\<rparr>"
  by (simp add: example_empty_task_def CreateTask_def SaveTask_def empty_state_def Let_def
      generateTaskID_def fmt_d_def digit_char_def task_path_def marshal_def files_of_def)

lemma example_two_files_eq:
  "example_two_files = \<lparr>arrays = (\<lambda>_. [])(0 := [new_file url_A, new_file url_B]),
     objs = (objs empty_state)(1 := \<lparr>ID = ''task_0'', URLs = [url_A, url_B], tStatus = StatusPending,
        Files = Some 0, tCreatedAt = 0, Progress = 0\<rparr>),
     next_addr = 2, tasks = [''task_0'' \<mapsto> 1],
     disk = [(''task_0.json'', (\<lparr>ID = ''task_0'', URLs = [url_A, url_B], tStatus = StatusPending,
        Files = Some 0, tCreatedAt = 0, Progress = 0\<rparr>, [new_file url_A, new_file url_B]))]\<rparr>"
  by (simp add: example_two_files_def CreateTask_def SaveTask_def empty_state_def Let_def
      generateTaskID_def fmt_d_def digit_char_def task_path_def marshal_def files_of_def)

lemma progress_minus_1_of_2:
  "int_of_f64 (f64_mul (f64_div (f64_of_int64 (- 1)) (f64_of_int64 2)) 100) = - 50"
  by code_simp

lemma progress_10_of_9:
  "int_of_f64 (f64_mul (f64_div (f64_of_int64 10) (f64_of_int64 9)) 100) = 111"
  by code_simp


section \<open>Properties of the \<open>float64\<close> model\<close>

lemma round_half_even_near: "\<bar>of_int (round_half_even y) - y\<bar> \<le> 1 / 2"
proof -
  define n where "n = \<lfloor>y\<rfloor>"
  define r where "r = y - of_int n"
  have r: "0 \<le> r" "r < 1" unfolding r_def n_def by linarith+
  have y: "y = of_int n + r" by (simp add: r_def)
  consider "r < 1 / 2" | "1 / 2 < r" | "r = 1 / 2" by linarith
  then show ?thesis
  proof cases
    case 1
    then have "round_half_even y = n" by (simp add: round_half_even_def Let_def n_def r_def)
    with 1 r y show ?thesis by simp
  next
    case 2
    then have "round_half_even y = n + 1" by (simp add: round_half_even_def Let_def n_def r_def)
    with 2 r y show ?thesis by simp
  next
    case 3
    then have "round_half_even y = n \<or> round_half_even y = n + 1"
      by (simp add: round_half_even_def Let_def n_def r_def)
    with 3 y show ?thesis by auto
  qed
qed

lemma round_half_even_nonzero: "1 \<le> \<bar>y\<bar> \<Longrightarrow> round_half_even y \<noteq> 0"
  using round_half_even_near [of y] by auto

lemma floor_log2_le:
  assumes "0 < x"
  shows "2 powi (floor_log2 x) \<le> x"
proof -
  obtain p q where pq: "quotient_of x = (p, q)" by (cases "quotient_of x")
  then have q: "0 < q" and x: "x = of_int p / of_int q"
    by (auto dest: quotient_of_denom_pos quotient_of_div)
  with assms have p: "0 < p" by (simp add: zero_less_divide_iff)
  define k where "k = bitlen p - bitlen q"
  show ?thesis
  proof (cases "2 powi k \<le> x")
    case True
    with pq show ?thesis by (simp add: floor_log2_def k_def)
  next
    case False
    from bitlen_bounds [OF p] have lo: "2 ^ nat (bitlen p - 1) \<le> p" by simp
    from bitlen_bounds [OF q] have hi: "q < 2 ^ nat (bitlen q)" by simp
    have bp: "0 \<le> bitlen p - 1" using p by (simp add: bitlen_def floorlog_def)
    have bq: "0 \<le> bitlen q" by (rule bitlen_nonneg)
    have ke: "k - 1 = (bitlen p - 1) - bitlen q" by (simp add: k_def)
    have "(2::rat) powi (k - 1) = 2 powi (bitlen p - 1) / 2 powi (bitlen q)"
      unfolding ke by (rule power_int_diff) simp
    also have "\<dots> = 2 ^ nat (bitlen p - 1) / 2 ^ nat (bitlen q)"
      using bp bq by (simp add: power_int_def)
    also have "\<dots> \<le> of_int p / of_int q"
    proof (rule frac_le)
      show "(0::rat) \<le> of_int p" using p by simp
      have "(of_int (2 ^ nat (bitlen p - 1)) :: rat) \<le> of_int p" using lo by (simp only: of_int_le_iff)
      then show "(2::rat) ^ nat (bitlen p - 1) \<le> of_int p" by simp
      show "(0::rat) < of_int q" using q by simp
      have "(of_int q :: rat) \<le> of_int (2 ^ nat (bitlen q))" using hi by (simp only: of_int_le_iff)
      then show "(of_int q :: rat) \<le> 2 ^ nat (bitlen q)" by simp
    qed
    finally have "2 powi (k - 1) \<le> x" using x by simp
    with False pq show ?thesis by (simp add: floor_log2_def k_def)
  qed
qed

lemma f64_round_nonzero:
  assumes "x \<noteq> 0"
  shows "f64_round x \<noteq> 0"
proof -
  define e where "e = floor_log2 \<bar>x\<bar>"
  define u :: rat where "u = 2 powi (e - 52)"
  have u: "0 < u" by (simp add: u_def)
  have "2 powi e \<le> \<bar>x\<bar>" unfolding e_def using assms by (intro floor_log2_le) simp
  moreover have "u \<le> 2 powi e" unfolding u_def by (rule power_int_increasing) simp_all
  ultimately have "u \<le> \<bar>x\<bar>" by simp
  then have "1 \<le> \<bar>x\<bar> / u" using u by (simp add: le_divide_eq)
  then have "1 \<le> \<bar>x / u\<bar>" using u by simp
  then have "round_half_even (x / u) \<noteq> 0" by (rule round_half_even_nonzero)
  with u assms show ?thesis by (simp add: f64_round_def e_def u_def Let_def)
qed

lemma f64_round_1: "f64_round 1 = 1" by code_simp
lemma f64_round_100: "f64_round 100 = 100" by code_simp

lemma progress_of_equal:
  assumes "b \<noteq> 0"
  shows "int_of_f64 (f64_mul (f64_div b b) 100) = 100"
  using assms by (simp add: f64_div_def f64_mul_def int_of_f64_def f64_round_1 f64_round_100)


section \<open>Properties of the aggregation pass\<close>

lemma scan_files_eq:
  "scan_files fs (t, d, ac, ai) =
     (t + sum_list (map Size fs), d + sum_list (map Downloaded fs),
      ac \<and> (\<forall>f\<in>set fs. fStatus f = StatusCompleted),
      ai \<or> (\<exists>f\<in>set fs. fStatus f = StatusDownloading))"
  by (induction fs arbitrary: t d ac ai) (auto simp: algebra_simps)

lemma count_completed_eq:
  "count_completed fs c = c + int (length (filter (\<lambda>f. fStatus f = StatusCompleted) fs))"
  by (induction fs arbitrary: c) auto


lemma StatusCompleted_neq [simp]:
  "StatusCompleted \<noteq> StatusDownloading" "StatusCompleted \<noteq> StatusPending"
  "StatusCompleted \<noteq> StatusFailed" "StatusDownloading \<noteq> StatusCompleted"
  "StatusPending \<noteq> StatusCompleted" "StatusFailed \<noteq> StatusCompleted"
  "StatusDownloading \<noteq> StatusPending" "StatusPending \<noteq> StatusDownloading"
  "StatusDownloading \<noteq> StatusFailed" "StatusFailed \<noteq> StatusDownloading"
  "StatusPending \<noteq> StatusFailed" "StatusFailed \<noteq> StatusPending"
  by (simp_all add: StatusCompleted_def StatusDownloading_def StatusPending_def StatusFailed_def)

lemma UpdateTask_heap:
  "objs (snd (UpdateTask io p s)) = objs s" "arrays (snd (UpdateTask io p s)) = arrays s"
  by (cases io; simp add: UpdateTask_def storage_UpdateTask_def SaveTask_def)+


lemma updateTaskProgress_task:
  assumes "GetTask taskID s = Some p"
  shows "objs (updateTaskProgress False io taskID s) p =
    (objs s p)\<lparr>Progress :=
        (case progress_quotient (files_of s (objs s p)) of
           None \<Rightarrow> Progress (objs s p)
         | Some q \<Rightarrow> int_of_f64 (f64_mul q 100)),
      tStatus :=
        (if \<forall>f\<in>set (files_of s (objs s p)). fStatus f = StatusCompleted then StatusCompleted
         else if \<exists>f\<in>set (files_of s (objs s p)). fStatus f = StatusDownloading then StatusDownloading
         else if 0 < (case progress_quotient (files_of s (objs s p)) of
                        None \<Rightarrow> Progress (objs s p)
                      | Some q \<Rightarrow> int_of_f64 (f64_mul q 100)) then StatusDownloading
         else StatusPending)\<rparr>"
  using assms
  by (simp add: updateTaskProgress_def Let_def UpdateTask_heap scan_files_eq)

lemma progress_quotient_all_completed:
  assumes "fs \<noteq> []"
    and "\<forall>f\<in>set fs. fStatus f = StatusCompleted \<and> Downloaded f = Size f"
  shows "\<exists>b. b \<noteq> 0 \<and> progress_quotient fs = Some (f64_div b b)"
proof -
  have m: "map Downloaded fs = map Size fs" using assms(2) by simp
  have c: "filter (\<lambda>f. fStatus f = StatusCompleted) fs = fs" using assms(2) by simp
  define T where "T = sum_list (map Size fs)"
  show ?thesis
  proof (cases "0 <s T")
    case True
    then have "sint T \<noteq> 0" by (simp add: word_sless_alt)
    then have "(of_int (sint T) :: rat) \<noteq> 0" by (simp only: of_int_eq_0_iff not_False_eq_True)
    then have "f64_of_int64 T \<noteq> 0" unfolding f64_of_int64_def by (rule f64_round_nonzero)
    moreover have "progress_quotient fs = Some (f64_div (f64_of_int64 T) (f64_of_int64 T))"
      using True by (simp add: progress_quotient_def scan_files_eq m T_def)
    ultimately show ?thesis by blast
  next
    case False
    have "f64_of_int (int (length fs)) \<noteq> 0"
      using assms(1) by (simp add: f64_of_int_def f64_round_nonzero)
    moreover have "progress_quotient fs =
        Some (f64_div (f64_of_int (int (length fs))) (f64_of_int (int (length fs))))"
      using False assms(1) by (simp add: progress_quotient_def scan_files_eq m T_def count_completed_eq c)
    ultimately show ?thesis by blast
  qed
qed


section \<open>Properties of the recovery loop\<close>

lemma reset_file_idem: "reset_file (reset_file f) = reset_file f"
  by (simp add: reset_file_def)

lemma map_reset_file_idem: "map reset_file (map reset_file fs) = map reset_file fs"
  by (simp add: reset_file_idem)

lemma recovering_refl: "recovering s s"
  by (simp add: recovering_def)

lemma recover_task_skip:
  "\<not> incomplete (objs s p) \<Longrightarrow> recover_task io p s = (False, s)"
  by (simp add: recover_task_def incomplete_def)

lemma recover_task_state:
  assumes "incomplete (objs s p)"
  shows "objs (snd (recover_task io p s)) =
           (objs s)(p := (objs s p)\<lparr>tStatus := StatusPending, Progress := 0\<rparr>)"
    and "arrays (snd (recover_task io p s)) =
           (case Files (objs s p) of None \<Rightarrow> arrays s
            | Some a \<Rightarrow> (arrays s)(a := map reset_file (arrays s a)))"
    and "disk (snd (recover_task io p s)) =
           (if io = IoOk
            then (task_path (ID (objs s p)),
                  ((objs s p)\<lparr>tStatus := StatusPending, Progress := 0\<rparr>,
                   map reset_file (files_of s (objs s p)))) # disk s
            else disk s)"
  using assms
  by (cases io; cases "Files (objs s p)";
      simp add: recover_task_def incomplete_def Let_def UpdateTask_def storage_UpdateTask_def
        SaveTask_def marshal_def files_of_def)+

lemma recovering_step:
  assumes "recovering s0 s1"
  shows "recovering s0 (snd (recover_task io p s1))"
proof (cases "incomplete (objs s1 p)")
  case False
  with assms show ?thesis by (simp add: recover_task_skip)
next
  case True
  note st = recover_task_state [OF True, of io]
  from assms have o: "\<And>q. objs s1 q = objs s0 q \<or>
      (incomplete (objs s0 q) \<and> objs s1 q = (objs s0 q)\<lparr>tStatus := StatusPending, Progress := 0\<rparr>)"
    and a: "\<And>b. arrays s1 b = arrays s0 b \<or> arrays s1 b = map reset_file (arrays s0 b)"
    and d: "\<exists>new. disk s1 = new @ disk s0"
    by (auto simp: recovering_def)
  have o': "objs (snd (recover_task io p s1)) q = objs s0 q \<or>
      (incomplete (objs s0 q) \<and>
       objs (snd (recover_task io p s1)) q = (objs s0 q)\<lparr>tStatus := StatusPending, Progress := 0\<rparr>)" for q
    using o [of q] o [of p] True unfolding st(1) by (auto simp: incomplete_def)
  have a': "arrays (snd (recover_task io p s1)) b = arrays s0 b \<or>
      arrays (snd (recover_task io p s1)) b = map reset_file (arrays s0 b)" for b
    using a [of b] unfolding st(2)
    by (cases "Files (objs s1 p)") (auto simp: reset_file_idem)
  have d': "\<exists>new. disk (snd (recover_task io p s1)) = new @ disk s0"
    using d unfolding st(3) by auto
  show ?thesis unfolding recovering_def using o' a' d' by blast
qed

lemma settled_visit:
  assumes "recovering s0 s1" and "incomplete (objs s0 p)"
  shows "settled s0 p (io = IoOk) (snd (recover_task io p s1))"
proof -
  from assms have o: "objs s1 p = objs s0 p \<or>
      objs s1 p = (objs s0 p)\<lparr>tStatus := StatusPending, Progress := 0\<rparr>"
    and a: "\<And>b. arrays s1 b = arrays s0 b \<or> arrays s1 b = map reset_file (arrays s0 b)"
    and d: "\<exists>new. disk s1 = new @ disk s0"
    by (auto simp: recovering_def)
  from o assms(2) have inc: "incomplete (objs s1 p)" by (auto simp: incomplete_def)
  note st = recover_task_state [OF inc, of io]
  from o have F: "Files (objs s1 p) = Files (objs s0 p)" and I: "ID (objs s1 p) = ID (objs s0 p)"
    by auto
  have r: "(objs s1 p)\<lparr>tStatus := StatusPending, Progress := 0\<rparr> =
           (objs s0 p)\<lparr>tStatus := StatusPending, Progress := 0\<rparr>"
    using o by auto
  have f1: "map reset_file (files_of s1 (objs s1 p)) = map reset_file (files_of s0 (objs s0 p))"
  proof (cases "Files (objs s0 p)")
    case None
    with F show ?thesis by (simp add: files_of_def)
  next
    case (Some b)
    with F a [of b] show ?thesis by (auto simp: files_of_def reset_file_idem)
  qed
  have f2: "files_of (snd (recover_task io p s1)) (objs (snd (recover_task io p s1)) p) =
            map reset_file (files_of s1 (objs s1 p))"
    by (cases "Files (objs s1 p)") (simp_all add: files_of_def st(1) st(2))
  from d obtain new where new: "disk s1 = new @ disk s0" by blast
  have "io = IoOk \<longrightarrow> (\<exists>new'. disk (snd (recover_task io p s1)) = new' @ disk s0 \<and>
          (task_path (ID (objs s0 p)),
           ((objs s0 p)\<lparr>tStatus := StatusPending, Progress := 0\<rparr>,
            map reset_file (files_of s0 (objs s0 p)))) \<in> set new')"
    unfolding st(3) using new by (auto simp: r f1 I)
  then show ?thesis
    unfolding settled_def using f1 f2 r by (simp add: st(1))
qed

lemma settled_step:
  assumes "recovering s0 s1" and "incomplete (objs s0 p)" and "settled s0 p ok s1"
  shows "settled s0 p ok (snd (recover_task io q s1))"
proof (cases "incomplete (objs s1 q)")
  case False
  with assms(3) show ?thesis by (simp add: recover_task_skip)
next
  case True
  note st = recover_task_state [OF True, of io]
  from assms(3) have o: "objs s1 p = (objs s0 p)\<lparr>tStatus := StatusPending, Progress := 0\<rparr>"
    and f: "files_of s1 (objs s1 p) = map reset_file (files_of s0 (objs s0 p))"
    and w: "ok \<longrightarrow> (\<exists>new. disk s1 = new @ disk s0 \<and>
          (task_path (ID (objs s0 p)),
           ((objs s0 p)\<lparr>tStatus := StatusPending, Progress := 0\<rparr>,
            map reset_file (files_of s0 (objs s0 p)))) \<in> set new)"
    by (auto simp: settled_def)
  have o': "objs (snd (recover_task io q s1)) p = (objs s0 p)\<lparr>tStatus := StatusPending, Progress := 0\<rparr>"
    unfolding st(1) using o by auto
  have "files_of (snd (recover_task io q s1)) (objs s1 p) = files_of s1 (objs s1 p)"
    unfolding f unfolding files_of_def st(2) using f
    by (cases "Files (objs s1 p)"; cases "Files (objs s1 q)")
       (auto simp: files_of_def reset_file_idem)
  moreover have "objs (snd (recover_task io q s1)) p = objs s1 p" using o o' by simp
  ultimately have f': "files_of (snd (recover_task io q s1)) (objs (snd (recover_task io q s1)) p) =
      map reset_file (files_of s0 (objs s0 p))"
    using f by simp
  have w': "ok \<longrightarrow> (\<exists>new. disk (snd (recover_task io q s1)) = new @ disk s0 \<and>
          (task_path (ID (objs s0 p)),
           ((objs s0 p)\<lparr>tStatus := StatusPending, Progress := 0\<rparr>,
            map reset_file (files_of s0 (objs s0 p)))) \<in> set new)"
  proof
    assume ok
    with w obtain new where new: "disk s1 = new @ disk s0"
      "(task_path (ID (objs s0 p)),
           ((objs s0 p)\<lparr>tStatus := StatusPending, Progress := 0\<rparr>,
            map reset_file (files_of s0 (objs s0 p)))) \<in> set new" by blast
    show "\<exists>new. disk (snd (recover_task io q s1)) = new @ disk s0 \<and>
          (task_path (ID (objs s0 p)),
           ((objs s0 p)\<lparr>tStatus := StatusPending, Progress := 0\<rparr>,
            map reset_file (files_of s0 (objs s0 p)))) \<in> set new"
    proof (cases "io = IoOk")
      case True
      then show ?thesis unfolding st(3) using new
        by (intro exI [of _ "(task_path (ID (objs s1 q)),
                  ((objs s1 q)\<lparr>tStatus := StatusPending, Progress := 0\<rparr>,
                   map reset_file (files_of s1 (objs s1 q)))) # new"]) simp
    next
      case False
      then show ?thesis unfolding st(3) using new by auto
    qed
  qed
  show ?thesis unfolding settled_def using o' f' w' by blast
qed

lemma recover_loop_recovering:
  "recovering s0 s1 \<Longrightarrow> recovering s0 (snd (recover_loop io xs (n, s1)))"
proof (induction xs arbitrary: n s1)
  case Nil
  then show ?case by simp
next
  case (Cons x xs)
  obtain k p where x: "x = (k, p)" by (cases x)
  obtain ok s2 where rt: "recover_task (io k) p s1 = (ok, s2)" by (cases "recover_task (io k) p s1")
  have "recovering s0 s2" using recovering_step [OF Cons.prems, of "io k" p] rt by simp
  from Cons.IH [OF this] show ?case by (simp add: x rt)
qed

lemma recover_loop_settled:
  "recovering s0 s1 \<Longrightarrow> incomplete (objs s0 p) \<Longrightarrow> settled s0 p ok s1 \<Longrightarrow>
   settled s0 p ok (snd (recover_loop io xs (n, s1)))"
proof (induction xs arbitrary: n s1)
  case Nil
  then show ?case by simp
next
  case (Cons x xs)
  obtain k q where x: "x = (k, q)" by (cases x)
  obtain b s2 where rt: "recover_task (io k) q s1 = (b, s2)" by (cases "recover_task (io k) q s1")
  have r: "recovering s0 s2" using recovering_step [OF Cons.prems(1), of "io k" q] rt by simp
  have s: "settled s0 p ok s2" using settled_step [OF Cons.prems, of "io k" q] rt by simp
  from Cons.IH [OF r Cons.prems(2) s] show ?case by (simp add: x rt)
qed

lemma recover_loop_visits:
  "recovering s0 s1 \<Longrightarrow> incomplete (objs s0 p) \<Longrightarrow> (k, p) \<in> set xs \<Longrightarrow>
   settled s0 p (io k = IoOk) (snd (recover_loop io xs (n, s1)))"
proof (induction xs arbitrary: n s1)
  case Nil
  then show ?case by simp
next
  case (Cons x xs)
  obtain k' q where x: "x = (k', q)" by (cases x)
  obtain b s2 where rt: "recover_task (io k') q s1 = (b, s2)" by (cases "recover_task (io k') q s1")
  have r: "recovering s0 s2" using recovering_step [OF Cons.prems(1), of "io k'" q] rt by simp
  show ?case
  proof (cases "x = (k, p)")
    case True
    with x have e: "k' = k" "q = p" by simp_all
    have "settled s0 p (io k = IoOk) s2"
      using settled_visit [OF Cons.prems(1,2), of "io k"] rt e by simp
    from recover_loop_settled [OF r Cons.prems(2) this] show ?thesis by (simp add: x rt)
  next
    case False
    with Cons.prems(3) have "(k, p) \<in> set xs" by simp
    from Cons.IH [OF r Cons.prems(2) this] show ?thesis by (simp add: x rt)
  qed
qed

lemma recover_loop_skip:
  "recovering s0 s1 \<Longrightarrow> \<forall>(k', p) \<in> set xs. k' = k \<longrightarrow> \<not> incomplete (objs s0 p) \<Longrightarrow>
   recover_loop io (filter (\<lambda>x. fst x \<noteq> k) xs) (n, s1) = recover_loop io xs (n, s1)"
proof (induction xs arbitrary: n s1)
  case Nil
  then show ?case by simp
next
  case (Cons x xs)
  obtain k' q where x: "x = (k', q)" by (cases x)
  from Cons.prems(2) have rest: "\<forall>(k', p) \<in> set xs. k' = k \<longrightarrow> \<not> incomplete (objs s0 p)" by simp
  show ?case
  proof (cases "k' = k")
    case True
    with Cons.prems(2) x have ni: "\<not> incomplete (objs s0 q)" by simp
    with Cons.prems(1) have "objs s1 q = objs s0 q" by (auto simp: recovering_def)
    with ni have "recover_task (io k') q s1 = (False, s1)" by (simp add: recover_task_skip)
    with Cons.IH [OF Cons.prems(1) rest] True show ?thesis by (simp add: x)
  next
    case False
    obtain b s2 where rt: "recover_task (io k') q s1 = (b, s2)" by (cases "recover_task (io k') q s1")
    have r: "recovering s0 s2" using recovering_step [OF Cons.prems(1), of "io k'" q] rt by simp
    from Cons.IH [OF r rest] False show ?thesis by (simp add: x rt)
  qed
qed

lemma snapshot_set: "((k, p) \<in> set (snapshot order m)) = (k \<in> set order \<and> m k = Some p)"
  by (induction order) (auto simp: snapshot_def split: option.splits)

lemma snapshot_removeAll:
  "snapshot (removeAll k order) m = filter (\<lambda>x. fst x \<noteq> k) (snapshot order m)"
  by (induction order) (auto simp: snapshot_def split: option.splits)


lemma recover_loop_all_skipped:
  "\<forall>(k, p) \<in> set xs. \<not> incomplete (objs s p) \<Longrightarrow> recover_loop io xs (n, s) = (n, s)"
  by (induction xs arbitrary: n) (auto simp: recover_task_skip)

lemma reset_file_fun:
  "(\<lambda>f. if fStatus f \<noteq> StatusCompleted then f\<lparr>fStatus := StatusPending, Downloaded := 0\<rparr> else f)
     = reset_file"
  by (rule ext) (simp add: reset_file_def)

lemma completed_not_incomplete: "tStatus t = StatusCompleted \<Longrightarrow> \<not> incomplete t"
  by (simp add: incomplete_def)


section \<open>The claims\<close>

text \<open>
  C10. \<open>Downloader.ExtractFilename\<close> never returns the empty string. When the URL
  parses and its path is neither empty nor ends in a slash, the result is the last
  segment of the path (what follows its last slash); in every other case (parse error,
  empty path, path \<open>/\<close>, path ending in a slash) it is \<open>file_\<close> followed by the
  length of the input in decimal. This holds for whatever \<open>neturl.Parse\<close> answers.
\<close>

theorem ExtractFilename_result:
  "ExtractFilename parse u \<noteq> [] \<and>
   ExtractFilename parse u =
     (case parse u of
        None \<Rightarrow> ''file_'' @ fmt_d (int (length u))
      | Some p \<Rightarrow>
          if p = [] \<or> last p = CHR ''/'' then ''file_'' @ fmt_d (int (length u))
          else rev (takeWhile (\<lambda>x. x \<noteq> CHR ''/'') (rev p)))"
proof (cases "parse u")
  case None
  then show ?thesis by (simp add: ExtractFilename_def)
next
  case (Some p)
  show ?thesis
  proof (cases "p = [] \<or> p = ''/''")
    case True
    with Some show ?thesis by (auto simp: ExtractFilename_def)
  next
    case False
    then have ne: "p \<noteq> []" by simp
    show ?thesis
      using Some False last_segment_Nil [OF ne, of "CHR ''/''"]
      by (simp add: ExtractFilename_def Let_def last_split_on)
  qed
qed

theorem ExtractFilename_result_witness:
  "ExtractFilename (\<lambda>u. Some (drop 18 u)) ''http://example.com/'' = ''file_19'' \<and>
   ExtractFilename (\<lambda>u. Some (drop 8 u)) ''http://x/y/z.txt'' = ''z.txt''"
  using ExtractFilename_result [of "\<lambda>u. Some (drop 18 u)" "''http://example.com/''"]
    ExtractFilename_result [of "\<lambda>u. Some (drop 8 u)" "''http://x/y/z.txt''"]
  by (simp add: fmt_d_def digit_char_def)


text \<open>
  C8. \<open>TaskStorage.UpdateTask\<close> is \<open>TaskStorage.SaveTask\<close>: on every task, in every
  state and under every outcome of the file system, the two return the same error and
  leave the same state directory.
\<close>

theorem UpdateTask_is_SaveTask:
  "storage_UpdateTask io p s = SaveTask io p s"
  by (simp add: storage_UpdateTask_def)


theorem UpdateTask_is_SaveTask_witness:
  "storage_UpdateTask WriteFileFails 0 empty_state = (Some ErrWriteTaskFile, empty_state) \<and>
   fst (storage_UpdateTask IoOk 0 empty_state) = None \<and>
   disk (snd (storage_UpdateTask IoOk 0 empty_state)) = disk (snd (SaveTask IoOk 0 empty_state))"
  using UpdateTask_is_SaveTask [of WriteFileFails 0 empty_state]
    UpdateTask_is_SaveTask [of IoOk 0 empty_state]
  by (simp add: SaveTask_def)











text \<open>After \<open>Stop\<close> has closed the queue, the send case can be picked and panics.\<close>

lemma AddTask_closed_channel_panics:
  "AddTask 0 example_unit ((NewWorkerPool 1 False)\<lparr>ctx_done := True, chan_closed := True\<rparr>) =
     (SendOnClosedChannel, (NewWorkerPool 1 False)\<lparr>ctx_done := True, chan_closed := True\<rparr>)"
  by (simp add: AddTask_def NewWorkerPool_def)


text \<open>
  C9. When the size probe of a unit fails, \<open>processTask\<close> changes one thing only: the
  status of that file becomes failed. The file's size, downloaded count and file name,
  every other file, every task object (so the progress and status of the owning task),
  the registry and the state directory are as before: nothing is aggregated and nothing
  is saved.
\<close>

theorem processTask_probe_fails:
  assumes "i < length (arrays s a)"
    and "GetFileSize e (URL (arrays s a ! i)) = Inl err"
  shows "processTask wp e io \<lparr>FilePtr = (a, i), TaskID = tid\<rparr> s =
           s\<lparr>arrays := (arrays s)(a := (arrays s a)[i := (arrays s a ! i)\<lparr>fStatus := StatusFailed\<rparr>])\<rparr> \<and>
         fStatus (arrays (processTask wp e io \<lparr>FilePtr = (a, i), TaskID = tid\<rparr> s) a ! i) = StatusFailed \<and>
         Size (arrays (processTask wp e io \<lparr>FilePtr = (a, i), TaskID = tid\<rparr> s) a ! i) = Size (arrays s a ! i) \<and>
         Downloaded (arrays (processTask wp e io \<lparr>FilePtr = (a, i), TaskID = tid\<rparr> s) a ! i) = Downloaded (arrays s a ! i) \<and>
         Filename (arrays (processTask wp e io \<lparr>FilePtr = (a, i), TaskID = tid\<rparr> s) a ! i) = Filename (arrays s a ! i) \<and>
         objs (processTask wp e io \<lparr>FilePtr = (a, i), TaskID = tid\<rparr> s) = objs s \<and>
         tasks (processTask wp e io \<lparr>FilePtr = (a, i), TaskID = tid\<rparr> s) = tasks s \<and>
         disk (processTask wp e io \<lparr>FilePtr = (a, i), TaskID = tid\<rparr> s) = disk s"
proof -
  have eq: "processTask wp e io \<lparr>FilePtr = (a, i), TaskID = tid\<rparr> s =
           s\<lparr>arrays := (arrays s)(a := (arrays s a)[i := (arrays s a ! i)\<lparr>fStatus := StatusFailed\<rparr>])\<rparr>"
    using assms by (simp add: processTask_def Let_def set_file_def get_file_def)
  show ?thesis unfolding eq using assms(1) by simp
qed

theorem processTask_probe_fails_witness:
  "fStatus (arrays (processTask (NewWorkerPool 1 False) failing_env IoOk example_unit example_state) 0 ! 0)
     = StatusFailed \<and>
   objs (processTask (NewWorkerPool 1 False) failing_env IoOk example_unit example_state)
     = objs example_state \<and>
   disk (processTask (NewWorkerPool 1 False) failing_env IoOk example_unit example_state)
     = disk example_state"
  using processTask_probe_fails [of 0 example_state 0 failing_env NetError
      "NewWorkerPool 1 False" IoOk "''task_0''"]
  by (simp add: example_state_eq failing_env_def example_unit_def)


text \<open>
  C3, as the code has it. For a registered task with no files, the aggregation pass
  evaluates no division and leaves the progress as it was (0 for a task that has just
  been created); the status becomes completed, since no file of the task is other than
  completed.
\<close>

theorem updateTaskProgress_no_files:
  assumes "GetTask taskID s = Some p"
    and "files_of s (objs s p) = []"
  shows "Progress (objs (updateTaskProgress False io taskID s) p) = Progress (objs s p) \<and>
         tStatus (objs (updateTaskProgress False io taskID s) p) = StatusCompleted \<and>
         progress_quotient (files_of s (objs s p)) = None"
  using assms
  by (simp add: updateTaskProgress_def progress_quotient_def Let_def UpdateTask_def
      storage_UpdateTask_def SaveTask_def split: io_outcome.split)

theorem updateTaskProgress_no_files_witness:
  "Progress (objs (updateTaskProgress False IoOk ''task_0'' example_empty_task) 0) = 0 \<and>
   tStatus (objs (updateTaskProgress False IoOk ''task_0'' example_empty_task) 0) = StatusCompleted"
  using updateTaskProgress_no_files [of "''task_0''" example_empty_task 0 IoOk]
  by (simp add: example_empty_task_eq GetTask_def files_of_def)


text \<open>
  The claim as stated fails: a pending task without files is no longer pending after
  the pass.
\<close>

theorem updateTaskProgress_no_files_counterexample:
  "GetTask ''task_0'' example_empty_task = Some 0 \<and>
   files_of example_empty_task (objs example_empty_task 0) = [] \<and>
   tStatus (objs example_empty_task 0) = StatusPending \<and>
   tStatus (objs (updateTaskProgress False IoOk ''task_0'' example_empty_task) 0) \<noteq> StatusPending"
  by (simp add: example_empty_task_eq GetTask_def files_of_def updateTaskProgress_def
      progress_quotient_def Let_def UpdateTask_def storage_UpdateTask_def SaveTask_def
      StatusCompleted_def StatusPending_def)


text \<open>
  C2 fails on the code. A task of two URLs: B answers the size probe without a length
  (size \<open>-1\<close>) and then fails the fetch; A is probed at 10 bytes and fetched. The pass
  that follows A's completion divides 10 downloaded bytes by a total size of
  \<open>10 + (-1) = 9\<close> and stores a progress of 111. And the other way round: A is
  probed without a length and fetched (size and downloaded \<open>-1\<close>), B is probed at 3
  bytes and fails the fetch; the pass divides \<open>-1\<close> by 2 and stores \<open>-50\<close>.
\<close>

theorem progress_outside_0_100:
  "Progress (objs (processTask (NewWorkerPool 1 False) env_unknown_size IoOk unit_A
      (processTask (NewWorkerPool 1 False) env_unknown_size IoOk unit_B example_two_files)) 1) = 111 \<and>
   Progress (objs (processTask (NewWorkerPool 1 False) env_unknown_size' IoOk unit_A
      (processTask (NewWorkerPool 1 False) env_unknown_size' IoOk unit_B example_two_files)) 1) = - 50"
  by (simp add: example_two_files_eq processTask_def Let_def set_file_def get_file_def
      unit_A_def unit_B_def env_unknown_size_def env_unknown_size'_def new_file_def url_A_def
      url_B_def NewWorkerPool_def updateTaskProgress_def GetTask_def files_of_def
      progress_quotient_def StatusCompleted_def StatusPending_def StatusDownloading_def
      StatusFailed_def UpdateTask_def storage_UpdateTask_def SaveTask_def progress_10_of_9
      progress_minus_1_of_2 word_sless_alt)

text \<open>
  C6. For a registered task with at least one file, all of whose files are completed
  with \<open>downloaded\<close> equal to \<open>size\<close>, one aggregation pass stores progress 100 and
  status completed. Nothing is assumed of the sizes: they may be positive, \<open>0\<close> or
  \<open>-1\<close>, and their sum may wrap around.
\<close>

theorem updateTaskProgress_all_completed:
  assumes "GetTask taskID s = Some p"
    and "files_of s (objs s p) \<noteq> []"
    and "\<forall>f\<in>set (files_of s (objs s p)). fStatus f = StatusCompleted \<and> Downloaded f = Size f"
  shows "Progress (objs (updateTaskProgress False io taskID s) p) = 100 \<and>
         tStatus (objs (updateTaskProgress False io taskID s) p) = StatusCompleted"
proof -
  from progress_quotient_all_completed [OF assms(2,3)]
  obtain b where b: "b \<noteq> 0" "progress_quotient (files_of s (objs s p)) = Some (f64_div b b)"
    by blast
  show ?thesis
    unfolding updateTaskProgress_task [OF assms(1)]
    using b assms(3) by (simp add: progress_of_equal)
qed

theorem updateTaskProgress_all_completed_witness:
  "Progress (objs (updateTaskProgress False IoOk ''task_0'' example_completed) 1) = 100 \<and>
   tStatus (objs (updateTaskProgress False IoOk ''task_0'' example_completed) 1) = StatusCompleted \<and>
   Progress (objs (updateTaskProgress False IoOk ''task_0'' example_completed_unknown) 1) = 100 \<and>
   tStatus (objs (updateTaskProgress False IoOk ''task_0'' example_completed_unknown) 1) = StatusCompleted"
  using updateTaskProgress_all_completed [of "''task_0''" example_completed 1 IoOk]
    updateTaskProgress_all_completed [of "''task_0''" example_completed_unknown 1 IoOk]
  by (simp add: example_completed_def example_completed_unknown_def example_state_eq
      set_file_def GetTask_def files_of_def)





text \<open>
  C7. \<open>RecoverIncompleteTasks\<close> visits the tasks of the registry in whatever order the
  map yields them. A task that was pending or downloading ends up pending with
  progress 0; each of its files that was not completed (a failed one too) is pending
  with \<open>downloaded = 0\<close>, the completed ones are untouched; and when the file system
  accepts the write, the task as updated is among the documents that this run has added
  to the state directory. A task that was completed is left as it was, and the whole
  run is the run that never visits it: nothing is changed and nothing is written on
  its account. If every task is completed the run changes nothing at all and counts 0.
\<close>

theorem RecoverIncompleteTasks_resets:
  assumes "k \<in> set order" and "GetAllTasks s k = Some p"
  shows
    "(tStatus (objs s p) = StatusPending \<or> tStatus (objs s p) = StatusDownloading \<longrightarrow>
        objs (snd (RecoverIncompleteTasks order io s)) p =
          (objs s p)\<lparr>tStatus := StatusPending, Progress := 0\<rparr> \<and>
        files_of (snd (RecoverIncompleteTasks order io s))
            (objs (snd (RecoverIncompleteTasks order io s)) p) =
          map (\<lambda>f. if fStatus f \<noteq> StatusCompleted
                    then f\<lparr>fStatus := StatusPending, Downloaded := 0\<rparr> else f)
              (files_of s (objs s p)) \<and>
        (io k = IoOk \<longrightarrow>
           (\<exists>new. disk (snd (RecoverIncompleteTasks order io s)) = new @ disk s \<and>
              (task_path (ID (objs s p)),
               (objs (snd (RecoverIncompleteTasks order io s)) p,
                files_of (snd (RecoverIncompleteTasks order io s))
                  (objs (snd (RecoverIncompleteTasks order io s)) p))) \<in> set new))) \<and>
     (tStatus (objs s p) = StatusCompleted \<longrightarrow>
        objs (snd (RecoverIncompleteTasks order io s)) p = objs s p \<and>
        RecoverIncompleteTasks (removeAll k order) io s = RecoverIncompleteTasks order io s) \<and>
     ((\<forall>k' \<in> set order. \<forall>q. GetAllTasks s k' = Some q \<longrightarrow> tStatus (objs s q) = StatusCompleted) \<longrightarrow>
        RecoverIncompleteTasks order io s = (0, s))"
proof (intro conjI impI)
  have mem: "(k, p) \<in> set (snapshot order (GetAllTasks s))"
    using assms by (simp add: snapshot_set)
  {
    assume "tStatus (objs s p) = StatusPending \<or> tStatus (objs s p) = StatusDownloading"
    then have inc: "incomplete (objs s p)" by (simp add: incomplete_def)
    have "settled s p (io k = IoOk) (snd (RecoverIncompleteTasks order io s))"
      unfolding RecoverIncompleteTasks_def
      by (rule recover_loop_visits [OF recovering_refl inc mem])
    note st = this [unfolded settled_def]
    note o = st [THEN conjunct1]
    note f = st [THEN conjunct2, THEN conjunct1]
    note w = st [THEN conjunct2, THEN conjunct2]
    show "objs (snd (RecoverIncompleteTasks order io s)) p =
          (objs s p)\<lparr>tStatus := StatusPending, Progress := 0\<rparr>"
      by (rule o)
    show "files_of (snd (RecoverIncompleteTasks order io s))
            (objs (snd (RecoverIncompleteTasks order io s)) p) =
          map (\<lambda>f. if fStatus f \<noteq> StatusCompleted
                    then f\<lparr>fStatus := StatusPending, Downloaded := 0\<rparr> else f)
              (files_of s (objs s p))"
      unfolding reset_file_fun by (rule f)
    assume "io k = IoOk"
    with w have "\<exists>new. disk (snd (RecoverIncompleteTasks order io s)) = new @ disk s \<and>
          (task_path (ID (objs s p)),
           ((objs s p)\<lparr>tStatus := StatusPending, Progress := 0\<rparr>,
            map reset_file (files_of s (objs s p)))) \<in> set new"
      by (rule mp)
    then show "\<exists>new. disk (snd (RecoverIncompleteTasks order io s)) = new @ disk s \<and>
              (task_path (ID (objs s p)),
               (objs (snd (RecoverIncompleteTasks order io s)) p,
                files_of (snd (RecoverIncompleteTasks order io s))
                  (objs (snd (RecoverIncompleteTasks order io s)) p))) \<in> set new"
      unfolding f unfolding o .
  }
  {
    assume c: "tStatus (objs s p) = StatusCompleted"
    then have ni: "\<not> incomplete (objs s p)" by (rule completed_not_incomplete)
    have "recovering s (snd (RecoverIncompleteTasks order io s))"
      unfolding RecoverIncompleteTasks_def by (rule recover_loop_recovering [OF recovering_refl])
    with ni show "objs (snd (RecoverIncompleteTasks order io s)) p = objs s p"
      by (auto simp: recovering_def)
    have "\<forall>(k', q) \<in> set (snapshot order (GetAllTasks s)). k' = k \<longrightarrow> \<not> incomplete (objs s q)"
      using assms(2) ni by (auto simp: snapshot_set)
    from recover_loop_skip [OF recovering_refl this]
    show "RecoverIncompleteTasks (removeAll k order) io s = RecoverIncompleteTasks order io s"
      by (simp add: RecoverIncompleteTasks_def snapshot_removeAll GetAllTasks_def)
  }
  {
    assume "\<forall>k' \<in> set order. \<forall>q. GetAllTasks s k' = Some q \<longrightarrow> tStatus (objs s q) = StatusCompleted"
    then have "\<forall>(k', q) \<in> set (snapshot order (GetAllTasks s)). \<not> incomplete (objs s q)"
      by (auto simp: snapshot_set completed_not_incomplete)
    then show "RecoverIncompleteTasks order io s = (0, s)"
      unfolding RecoverIncompleteTasks_def by (rule recover_loop_all_skipped)
  }
qed


theorem RecoverIncompleteTasks_resets_witness:
  "tStatus (objs (snd (RecoverIncompleteTasks [''task_2'', ''task_1''] (\<lambda>k. IoOk) example_registry)) 1)
     = StatusPending \<and>
   Progress (objs (snd (RecoverIncompleteTasks [''task_2'', ''task_1''] (\<lambda>k. IoOk) example_registry)) 1)
     = 0 \<and>
   map fStatus (files_of (snd (RecoverIncompleteTasks [''task_2'', ''task_1''] (\<lambda>k. IoOk) example_registry))
     (objs (snd (RecoverIncompleteTasks [''task_2'', ''task_1''] (\<lambda>k. IoOk) example_registry)) 1))
     = [StatusCompleted, StatusPending] \<and>
   map Downloaded (files_of (snd (RecoverIncompleteTasks [''task_2'', ''task_1''] (\<lambda>k. IoOk) example_registry))
     (objs (snd (RecoverIncompleteTasks [''task_2'', ''task_1''] (\<lambda>k. IoOk) example_registry)) 1))
     = [2, 0] \<and>
   objs (snd (RecoverIncompleteTasks [''task_2'', ''task_1''] (\<lambda>k. IoOk) example_registry)) 3
     = objs example_registry 3 \<and>
   RecoverIncompleteTasks [''task_1''] (\<lambda>k. IoOk) example_registry
     = RecoverIncompleteTasks [''task_2'', ''task_1''] (\<lambda>k. IoOk) example_registry \<and>
   RecoverIncompleteTasks [''task_2''] (\<lambda>k. IoOk) example_registry = (0, example_registry)"
proof -
  have k1: "''task_1'' \<in> set [''task_2'', ''task_1'']"
    and k2: "''task_2'' \<in> set [''task_2'', ''task_1'']"
    and k3: "''task_2'' \<in> set [''task_2'']"
    by simp_all
  have g1: "GetAllTasks example_registry ''task_1'' = Some 1"
    and g2: "GetAllTasks example_registry ''task_2'' = Some 3"
    by (simp_all add: example_registry_def GetAllTasks_def)
  have d1: "tStatus (objs example_registry 1) = StatusPending \<or>
            tStatus (objs example_registry 1) = StatusDownloading"
    and d2: "tStatus (objs example_registry 3) = StatusCompleted"
    by (simp_all add: example_registry_def)
  have d3: "\<forall>k' \<in> set [''task_2'']. \<forall>q. GetAllTasks example_registry k' = Some q \<longrightarrow>
              tStatus (objs example_registry q) = StatusCompleted"
    using g2 d2 by simp
  note t1 = RecoverIncompleteTasks_resets [OF k1 g1, of "\<lambda>k. IoOk", THEN conjunct1, THEN mp, OF d1]
  note t2 = RecoverIncompleteTasks_resets [OF k2 g2, of "\<lambda>k. IoOk", THEN conjunct2, THEN conjunct1,
      THEN mp, OF d2]
  note t3 = RecoverIncompleteTasks_resets [OF k3 g2, of "\<lambda>k. IoOk", THEN conjunct2, THEN conjunct2,
      THEN mp, OF d3]
  note o = t1 [THEN conjunct1]
  note f = t1 [THEN conjunct2, THEN conjunct1]
  have r: "removeAll ''task_2'' [''task_2'', ''task_1''] = [''task_1'']" by simp
  show ?thesis
    unfolding f unfolding o
    using t2 [unfolded r] t3
    by (simp add: example_registry_def files_of_def)
qed

end
